theory Spec2Isabelle
  imports Complex_Main "HOL-Library.Multiset" "HOL-Library.Log_Nat"
begin

section \<open>Elements and their order\<close>

text \<open>
  The sorting routines of \<^verbatim>\<open>bubble_sort.py\<close> and \<^verbatim>\<open>merge_sort.py\<close> take a Python list
  of any elements and compare them with \<^verbatim>\<open><\<close>, \<^verbatim>\<open>>\<close>, \<^verbatim>\<open><=\<close> and \<^verbatim>\<open>>=\<close>. An element is a
  value of an arbitrary type \<open>'a\<close>; the order Python sees is the order of \<open>key x\<close> in a
  linear order \<open>'k\<close>. For numbers \<open>key\<close> is the identity; for elements that compare equal
  and are still distinguishable (a value with a tag) \<open>key\<close> forgets the tag. The
  comparison \<^verbatim>\<open>a < b\<close> of the source is \<open>key a < key b\<close>, and likewise for the other
  three operators. Elements that cannot be compared are outside the model.
\<close>

section \<open>\<^verbatim>\<open>merge_sort.py\<close>\<close>

subsection \<open>\<^verbatim>\<open>merge\<close>\<close>

text \<open>
  The first \<^verbatim>\<open>while\<close> loop of \<^verbatim>\<open>merge\<close>, on the loop state \<open>(i, j, result)\<close>. Both reads
  \<open>left ! i\<close> and \<open>right ! j\<close> are guarded by the loop condition.
\<close>

function merge_loop ::
  "('a \<Rightarrow> 'k::linorder) \<Rightarrow> bool \<Rightarrow> 'a list \<Rightarrow> 'a list \<Rightarrow> nat \<times> nat \<times> 'a list \<Rightarrow> nat \<times> nat \<times> 'a list"
where
  "merge_loop key reverse left right (i, j, result) =
     (if i < length left \<and> j < length right then
        (if reverse then
           (if key (left ! i) \<ge> key (right ! j)
            then merge_loop key reverse left right (i + 1, j, result @ [left ! i])
            else merge_loop key reverse left right (i, j + 1, result @ [right ! j]))
         else
           (if key (left ! i) \<le> key (right ! j)
            then merge_loop key reverse left right (i + 1, j, result @ [left ! i])
            else merge_loop key reverse left right (i, j + 1, result @ [right ! j])))
      else (i, j, result))"
  by pat_completeness auto
termination
  by (relation "measure (\<lambda>(key, reverse, left, right, i, j, result).
        (length left - i) + (length right - j))") auto

declare merge_loop.simps [simp del]

text \<open>
  The second and third loop: append what is left of one list from its cursor on.
\<close>

function copy_rest :: "'a list \<Rightarrow> nat \<times> 'a list \<Rightarrow> nat \<times> 'a list" where
  "copy_rest xs (i, result) =
     (if i < length xs then copy_rest xs (i + 1, result @ [xs ! i]) else (i, result))"
  by pat_completeness auto
termination
  by (relation "measure (\<lambda>(xs, i, result). length xs - i)") auto

declare copy_rest.simps [simp del]

definition merge :: "('a \<Rightarrow> 'k::linorder) \<Rightarrow> 'a list \<Rightarrow> 'a list \<Rightarrow> bool \<Rightarrow> 'a list" where
  "merge key left right reverse =
     (case merge_loop key reverse left right (0, 0, []) of
        (i, j, result) \<Rightarrow>
          (case copy_rest left (i, result) of
             (i', result') \<Rightarrow>
               (case copy_rest right (j, result') of
                  (j', result'') \<Rightarrow> result'')))"

subsection \<open>\<^verbatim>\<open>merge_sort\<close>\<close>

text \<open>
  \<^verbatim>\<open>arr.copy()\<close>, \<^verbatim>\<open>arr[:mid]\<close> and \<^verbatim>\<open>arr[mid:]\<close> build new lists with the same elements;
  as values they are \<open>arr\<close>, \<open>take mid arr\<close> and \<open>drop mid arr\<close>.
\<close>

function merge_sort :: "('a \<Rightarrow> 'k::linorder) \<Rightarrow> 'a list \<Rightarrow> bool \<Rightarrow> 'a list" where
  "merge_sort key arr reverse =
     (if length arr \<le> 1 then arr
      else
        (let mid = length arr div 2;
             left = take mid arr;
             right = drop mid arr;
             left_sorted = merge_sort key left reverse;
             right_sorted = merge_sort key right reverse
         in merge key left_sorted right_sorted reverse))"
  by pat_completeness auto
termination
  by (relation "measure (\<lambda>(key, arr, reverse). length arr)") auto

declare merge_sort.simps [simp del]

subsection \<open>\<^verbatim>\<open>merge_sort_with_steps\<close>\<close>

text \<open>
  The lines \<^verbatim>\<open>merge_sort_with_steps\<close> prints, each with the recursion depth that sets
  its indentation and the lists it shows.
\<close>

datatype 'a merge_line =
    Sorting nat "'a list"
  | BaseCase nat "'a list"
  | Splitting nat "'a list" "'a list"
  | Merging nat "'a list" "'a list" "'a list"
  | MergeResult nat "'a list"

text \<open>
  The function returns the pair \<open>(merged, total_ops)\<close> of the source together with the
  lines printed, in order. The operation count is a Python integer.
\<close>

function merge_sort_with_steps ::
  "('a \<Rightarrow> 'k::linorder) \<Rightarrow> 'a list \<Rightarrow> bool \<Rightarrow> nat \<Rightarrow> ('a list \<times> int) \<times> 'a merge_line list"
where
  "merge_sort_with_steps key arr reverse depth =
     (if length arr \<le> 1 then ((arr, 0), [Sorting depth arr, BaseCase depth arr])
      else
        (let mid = length arr div 2;
             left = take mid arr;
             right = drop mid arr
         in
           (case merge_sort_with_steps key left reverse (depth + 1) of
              ((left_sorted, left_ops), left_out) \<Rightarrow>
                (case merge_sort_with_steps key right reverse (depth + 1) of
                   ((right_sorted, right_ops), right_out) \<Rightarrow>
                     (let merged = merge key left_sorted right_sorted reverse;
                          merge_ops = int (length left_sorted) + int (length right_sorted);
                          total_ops = left_ops + right_ops + merge_ops
                      in ((merged, total_ops),
                          [Sorting depth arr, Splitting depth left right] @ left_out @ right_out @
                          [Merging depth left_sorted right_sorted merged,
                           MergeResult depth merged]))))))"
  by pat_completeness auto
termination
  by (relation "measure (\<lambda>(key, arr, reverse, depth). length arr)") auto

declare merge_sort_with_steps.simps [simp del]

section \<open>\<^verbatim>\<open>bubble_sort.py\<close>\<close>

subsection \<open>\<^verbatim>\<open>bubble_sort\<close>\<close>

text \<open>
  The tuple assignment \<^verbatim>\<open>a[j], a[j + 1] = (a[j + 1], a[j])\<close>: the right-hand side is
  read first, then position \<open>j\<close> and position \<open>j + 1\<close> are written.
\<close>

definition exchange :: "'a list \<Rightarrow> nat \<Rightarrow> 'a list" where
  "exchange arr j = arr[j := arr ! (j + 1), j + 1 := arr ! j]"

text \<open>
  The body of the inner \<^verbatim>\<open>for j\<close> loop on the loop state \<open>(sorted_arr, swapped)\<close>.
  The inner loop is the fold of this body over \<^verbatim>\<open>range(0, n - i - 1)\<close>.
\<close>

definition inner_body ::
  "('a \<Rightarrow> 'k::linorder) \<Rightarrow> bool \<Rightarrow> nat \<Rightarrow> 'a list \<times> bool \<Rightarrow> 'a list \<times> bool"
where
  "inner_body key reverse j st =
     (case st of (sorted_arr, swapped) \<Rightarrow>
        (if reverse then
           (if key (sorted_arr ! j) < key (sorted_arr ! (j + 1))
            then (exchange sorted_arr j, True)
            else (sorted_arr, swapped))
         else
           (if key (sorted_arr ! j) > key (sorted_arr ! (j + 1))
            then (exchange sorted_arr j, True)
            else (sorted_arr, swapped))))"

text \<open>
  The outer \<^verbatim>\<open>for i in range(n)\<close> loop with its \<^verbatim>\<open>break\<close>, from pass \<open>i\<close> on.
\<close>

function outer_loop ::
  "('a \<Rightarrow> 'k::linorder) \<Rightarrow> bool \<Rightarrow> nat \<Rightarrow> nat \<Rightarrow> 'a list \<Rightarrow> 'a list"
where
  "outer_loop key reverse n i sorted_arr =
     (if i < n then
        (case fold (inner_body key reverse) [0..<n - i - 1] (sorted_arr, False) of
           (sorted_arr', swapped) \<Rightarrow>
             (if \<not> swapped then sorted_arr'
              else outer_loop key reverse n (i + 1) sorted_arr'))
      else sorted_arr)"
  by pat_completeness auto
termination
  by (relation "measure (\<lambda>(key, reverse, n, i, sorted_arr). n - i)") auto

declare outer_loop.simps [simp del]

definition bubble_sort :: "('a \<Rightarrow> 'k::linorder) \<Rightarrow> 'a list \<Rightarrow> bool \<Rightarrow> 'a list" where
  "bubble_sort key arr reverse =
     (let sorted_arr = arr; n = length sorted_arr
      in outer_loop key reverse n 0 sorted_arr)"

subsection \<open>\<^verbatim>\<open>bubble_sort_with_steps\<close>\<close>

text \<open>
  The lines \<^verbatim>\<open>bubble_sort_with_steps\<close> prints. \<open>PassHeader k\<close> is the line that opens
  pass number \<open>k\<close>; \<open>SwapLine s a b arr\<close> reports at step \<open>s\<close> the exchange of \<open>a\<close> and
  \<open>b\<close> and shows the list after it.
\<close>

datatype 'a bubble_line =
    Initial "'a list"
  | Rule
  | PassHeader nat
  | SwapLine int 'a 'a "'a list"
  | NoSwaps
  | Blank
  | Result "'a list"
  | Total int

text \<open>
  The inner loop body on the state \<open>(sorted_arr, swapped, steps, out)\<close>, where \<open>out\<close>
  collects the printed lines.
\<close>

definition inner_body_steps ::
  "('a \<Rightarrow> 'k::linorder) \<Rightarrow> bool \<Rightarrow> nat \<Rightarrow>
     'a list \<times> bool \<times> int \<times> 'a bubble_line list \<Rightarrow> 'a list \<times> bool \<times> int \<times> 'a bubble_line list"
where
  "inner_body_steps key reverse j st =
     (case st of (sorted_arr, swapped, steps0, out) \<Rightarrow>
        (let steps = steps0 + 1 in
           (if reverse then
              (if key (sorted_arr ! j) < key (sorted_arr ! (j + 1))
               then (let a = exchange sorted_arr j
                     in (a, True, steps, out @ [SwapLine steps (a ! (j + 1)) (a ! j) a]))
               else (sorted_arr, swapped, steps, out))
            else
              (if key (sorted_arr ! j) > key (sorted_arr ! (j + 1))
               then (let a = exchange sorted_arr j
                     in (a, True, steps, out @ [SwapLine steps (a ! (j + 1)) (a ! j) a]))
               else (sorted_arr, swapped, steps, out)))))"

function outer_loop_steps ::
  "('a \<Rightarrow> 'k::linorder) \<Rightarrow> bool \<Rightarrow> nat \<Rightarrow> nat \<Rightarrow>
     'a list \<times> int \<times> 'a bubble_line list \<Rightarrow> 'a list \<times> int \<times> 'a bubble_line list"
where
  "outer_loop_steps key reverse n i (sorted_arr, steps, out) =
     (if i < n then
        (case fold (inner_body_steps key reverse) [0..<n - i - 1]
                (sorted_arr, False, steps, out @ [PassHeader (i + 1)]) of
           (sorted_arr', swapped, steps', out') \<Rightarrow>
             (if \<not> swapped then (sorted_arr', steps', out' @ [NoSwaps])
              else outer_loop_steps key reverse n (i + 1) (sorted_arr', steps', out' @ [Blank])))
      else (sorted_arr, steps, out))"
  by pat_completeness auto
termination
  by (relation "measure (\<lambda>(key, reverse, n, i, st). n - i)") auto

declare outer_loop_steps.simps [simp del]

text \<open>
  The function returns the pair \<open>(sorted_arr, steps)\<close> of the source together with the
  lines printed, in order.
\<close>

definition bubble_sort_with_steps ::
  "('a \<Rightarrow> 'k::linorder) \<Rightarrow> 'a list \<Rightarrow> bool \<Rightarrow> ('a list \<times> int) \<times> 'a bubble_line list"
where
  "bubble_sort_with_steps key arr reverse =
     (let sorted_arr = arr; n = length sorted_arr
      in (case outer_loop_steps key reverse n 0 (sorted_arr, 0, [Initial sorted_arr, Rule]) of
            (sorted_arr', steps, out) \<Rightarrow>
              ((sorted_arr', steps), out @ [Rule, Result sorted_arr', Total steps])))"

section \<open>Notions used in the statements\<close>

text \<open>
  The ordering policy of a direction: \<open>precedes key reverse a b\<close> says that \<open>a\<close> may stand
  before \<open>b\<close> in a list sorted in that direction, \<open>a \<le> b\<close> ascending and \<open>a \<ge> b\<close>
  descending.
\<close>

definition precedes :: "('a \<Rightarrow> 'k::linorder) \<Rightarrow> bool \<Rightarrow> 'a \<Rightarrow> 'a \<Rightarrow> bool" where
  "precedes key reverse a b = (if reverse then key a \<ge> key b else key a \<le> key b)"

text \<open>
  The merge of two lists as a recursion on the lists themselves. It is not part of the
  source; \<open>merge\<close> is shown to compute it.
\<close>

fun merge_list :: "('a \<Rightarrow> 'k::linorder) \<Rightarrow> bool \<Rightarrow> 'a list \<Rightarrow> 'a list \<Rightarrow> 'a list" where
  "merge_list key reverse [] ys = ys"
| "merge_list key reverse (x # xs) [] = x # xs"
| "merge_list key reverse (x # xs) (y # ys) =
     (if precedes key reverse x y then x # merge_list key reverse xs (y # ys)
      else y # merge_list key reverse (x # xs) ys)"

text \<open>
  The invariant of one pass of the inner loop of \<^verbatim>\<open>bubble_sort\<close> started on \<open>arr\<close>, after
  the positions below \<open>m\<close> have been compared with their successors: the list is a
  rearrangement of \<open>arr\<close> that keeps the order of elements with equal keys, is unchanged
  beyond position \<open>m\<close>, holds at position \<open>m\<close> an element that every earlier one may
  precede, and, as long as no exchange was made, is \<open>arr\<close> itself with its first \<open>m\<close>
  adjacent pairs in order.
\<close>

definition pass_inv ::
  "('a \<Rightarrow> 'k::linorder) \<Rightarrow> bool \<Rightarrow> 'a list \<Rightarrow> nat \<Rightarrow> 'a list \<times> bool \<Rightarrow> bool"
where
  "pass_inv key reverse arr m st =
     (case st of (a, s) \<Rightarrow>
        length a = length arr \<and> mset a = mset arr \<and>
        (\<forall>k. filter (\<lambda>x. key x = k) a = filter (\<lambda>x. key x = k) arr) \<and>
        drop (Suc m) a = drop (Suc m) arr \<and>
        (\<forall>p\<le>m. precedes key reverse (a ! p) (a ! m)) \<and>
        (\<not> s \<longrightarrow> a = arr \<and> (\<forall>p<m. precedes key reverse (arr ! p) (arr ! Suc p))))"

text \<open>
  The invariant of the outer loop of \<^verbatim>\<open>bubble_sort\<close> at the start of pass \<open>i\<close> on a list of
  length \<open>n\<close>: the last \<open>i\<close> positions are in order and hold elements that every earlier
  element may precede.
\<close>

definition outer_inv :: "('a \<Rightarrow> 'k::linorder) \<Rightarrow> bool \<Rightarrow> nat \<Rightarrow> nat \<Rightarrow> 'a list \<Rightarrow> bool" where
  "outer_inv key reverse n i a =
     (length a = n \<and> sorted_wrt (precedes key reverse) (drop (n - i) a) \<and>
      (\<forall>x \<in> set (take (n - i) a). \<forall>y \<in> set (drop (n - i) a). precedes key reverse x y))"

section \<open>The ordering policy\<close>

lemma precedes_refl: "precedes key reverse a a"
  by (simp add: precedes_def)

lemma precedes_trans:
  "precedes key reverse a b \<Longrightarrow> precedes key reverse b c \<Longrightarrow> precedes key reverse a c"
  by (auto simp: precedes_def split: if_splits)

lemma precedes_total: "precedes key reverse a b \<or> precedes key reverse b a"
  by (auto simp: precedes_def)


section \<open>Correctness of \<^verbatim>\<open>merge\<close>\<close>

lemma merge_list_Nil2 [simp]: "merge_list key reverse xs [] = xs"
  by (cases xs) simp_all

lemma copy_rest_eq: "copy_rest xs (i, result) = (max i (length xs), result @ drop i xs)"
proof (induction xs "(i, result)" arbitrary: i result rule: copy_rest.induct)
  case (1 xs i result)
  show ?case
  proof (cases "i < length xs")
    case True
    then show ?thesis
      using "1" copy_rest.simps [of xs i result]
      by (simp add: Cons_nth_drop_Suc max_def)
  next
    case False
    then show ?thesis
      using copy_rest.simps [of xs i result] by (simp add: max_def)
  qed
qed

lemma merge_loop_eq:
  "merge_loop key reverse left right (i, j, result) = (i', j', result') \<Longrightarrow>
     result' @ drop i' left @ drop j' right =
     result @ merge_list key reverse (drop i left) (drop j right)"
proof (induction key reverse left right "(i, j, result)" arbitrary: i j result
       rule: merge_loop.induct)
  case (1 key reverse left right i j result)
  note unf = merge_loop.simps [of key reverse left right i j result]
  show ?case
  proof (cases "i < length left \<and> j < length right")
    case False
    then show ?thesis using "1.prems" unf by auto
  next
    case True
    then have dl: "drop i left = left ! i # drop (Suc i) left"
      and dr: "drop j right = right ! j # drop (Suc j) right"
      by (simp_all add: Cons_nth_drop_Suc)
    show ?thesis
    proof (cases "precedes key reverse (left ! i) (right ! j)")
      case p: True
      then have "merge_loop key reverse left right (i + 1, j, result @ [left ! i]) =
                 (i', j', result')"
        using True "1.prems" unf by (auto simp: precedes_def split: if_splits)
      then have "result' @ drop i' left @ drop j' right =
                 (result @ [left ! i]) @ merge_list key reverse (drop (i + 1) left) (drop j right)"
        using True p "1.hyps"(1,3) by (auto simp: precedes_def split: if_splits)
      then show ?thesis
        using p by (simp add: dl dr)
    next
      case p: False
      then have "merge_loop key reverse left right (i, j + 1, result @ [right ! j]) =
                 (i', j', result')"
        using True "1.prems" unf by (auto simp: precedes_def split: if_splits)
      then have "result' @ drop i' left @ drop j' right =
                 (result @ [right ! j]) @ merge_list key reverse (drop i left) (drop (j + 1) right)"
        using True p "1.hyps"(2,4) by (auto simp: precedes_def split: if_splits)
      then show ?thesis
        using p by (simp add: dl dr)
    qed
  qed
qed

lemma merge_eq: "merge key left right reverse = merge_list key reverse left right"
proof -
  obtain i j result where m: "merge_loop key reverse left right (0, 0, []) = (i, j, result)"
    by (metis prod_cases3)
  from merge_loop_eq [OF m]
  have "result @ drop i left @ drop j right = merge_list key reverse left right"
    by simp
  then show ?thesis
    by (simp add: merge_def m copy_rest_eq)
qed

lemma mset_merge_list: "mset (merge_list key reverse xs ys) = mset xs + mset ys"
  by (induction key reverse xs ys rule: merge_list.induct) simp_all

lemma length_merge_list: "length (merge_list key reverse xs ys) = length xs + length ys"
  by (induction key reverse xs ys rule: merge_list.induct) simp_all

lemma set_merge_list: "set (merge_list key reverse xs ys) = set xs \<union> set ys"
  by (induction key reverse xs ys rule: merge_list.induct) auto

lemma sorted_merge_list:
  "sorted_wrt (precedes key reverse) xs \<Longrightarrow> sorted_wrt (precedes key reverse) ys \<Longrightarrow>
     sorted_wrt (precedes key reverse) (merge_list key reverse xs ys)"
proof (induction key reverse xs ys rule: merge_list.induct)
  case (3 key reverse x xs y ys)
  show ?case
  proof (cases "precedes key reverse x y")
    case True
    have "\<forall>z \<in> set (y # ys). precedes key reverse x z"
      using True "3.prems"(2) by (auto intro: precedes_trans)
    then show ?thesis
      using True 3 by (auto simp: set_merge_list)
  next
    case False
    then have yx: "precedes key reverse y x"
      using precedes_total [of key reverse x y] by simp
    have "\<forall>z \<in> set (x # xs). precedes key reverse y z"
      using yx "3.prems"(1) by (auto intro: precedes_trans)
    then show ?thesis
      using False 3 by (auto simp: set_merge_list)
  qed
qed simp_all


text \<open>
  Claim C10: for all lists \<open>left\<close> and \<open>right\<close>, sorted or not, and either direction,
  \<^verbatim>\<open>merge(left, right, reverse)\<close> returns a list of length \<open>len(left) + len(right)\<close> whose
  multiset of elements is that of \<open>left\<close> followed by \<open>right\<close>.
\<close>

theorem merge_length_mset:
  "length (merge key left right reverse) = length left + length right \<and>
   mset (merge key left right reverse) = mset left + mset right"
  by (simp add: merge_eq length_merge_list mset_merge_list)

section \<open>Correctness of \<^verbatim>\<open>merge_sort\<close>\<close>

lemma merge_sort_base: "length arr \<le> 1 \<Longrightarrow> merge_sort key arr reverse = arr"
  using merge_sort.simps [of key arr reverse] by simp

lemma merge_sort_rec:
  "\<not> length arr \<le> 1 \<Longrightarrow>
     merge_sort key arr reverse =
     merge_list key reverse (merge_sort key (take (length arr div 2) arr) reverse)
       (merge_sort key (drop (length arr div 2) arr) reverse)"
  using merge_sort.simps [of key arr reverse]
  by (simp add: Let_def merge_eq)

lemma mset_merge_sort: "mset (merge_sort key arr reverse) = mset arr"
proof (induction key arr reverse rule: merge_sort.induct)
  case (1 key arr reverse)
  show ?case
  proof (cases "length arr \<le> 1")
    case True
    then show ?thesis by (simp add: merge_sort_base)
  next
    case False
    have "mset (take (length arr div 2) arr) + mset (drop (length arr div 2) arr) = mset arr"
      by (metis append_take_drop_id mset_append)
    then show ?thesis
      using "1.IH" [OF False refl refl refl] 
      by (simp add: merge_sort_rec [OF False] mset_merge_list)
  qed
qed

lemma sorted_merge_sort: "sorted_wrt (precedes key reverse) (merge_sort key arr reverse)"
proof (induction key arr reverse rule: merge_sort.induct)
  case (1 key arr reverse)
  show ?case
  proof (cases "length arr \<le> 1")
    case True
    then show ?thesis
      by (cases arr) (auto simp: merge_sort_base)
  next
    case False
    then show ?thesis
      using "1.IH" [OF False refl refl refl]
      by (simp add: merge_sort_rec [OF False] sorted_merge_list)
  qed
qed


section \<open>One pass of \<^verbatim>\<open>bubble_sort\<close>\<close>

lemma length_exchange [simp]: "length (exchange a j) = length a"
  by (simp add: exchange_def)

lemma nth_exchange:
  "j + 1 < length a \<Longrightarrow>
     exchange a j ! p = (if p = j then a ! (j + 1) else if p = j + 1 then a ! j else a ! p)"
  by (auto simp: exchange_def nth_list_update)

lemma mset_exchange: "j + 1 < length a \<Longrightarrow> mset (exchange a j) = mset a"
  unfolding exchange_def using mset_swap [of "j + 1" a j] by simp

lemma drop_exchange: "j + 2 \<le> m \<Longrightarrow> drop m (exchange a j) = drop m a"
  by (simp add: exchange_def)

lemma exchange_append:
  "exchange (xs @ x # y # ys) (length xs) = xs @ y # x # ys"
  by (simp add: exchange_def list_update_append nth_append)

lemma exchange_decomp:
  assumes "j + 1 < length a"
  shows "a = take j a @ a ! j # a ! (j + 1) # drop (j + 2) a"
    and "exchange a j = take j a @ a ! (j + 1) # a ! j # drop (j + 2) a"
proof -
  have d1: "drop j a = a ! j # drop (Suc j) a"
    using assms by (simp add: Cons_nth_drop_Suc)
  have d2: "drop (Suc j) a = a ! (j + 1) # drop (j + 2) a"
    using assms by (simp add: Cons_nth_drop_Suc)
  have "a = take j a @ drop j a"
    by simp
  then show 1: "a = take j a @ a ! j # a ! (j + 1) # drop (j + 2) a"
    by (simp only: d1 d2)
  have "length (take j a) = j"
    using assms by simp
  then have "exchange (take j a @ a ! j # a ! (j + 1) # drop (j + 2) a) j =
             take j a @ a ! (j + 1) # a ! j # drop (j + 2) a"
    using exchange_append [of "take j a" "a ! j" "a ! (j + 1)" "drop (j + 2) a"] by simp
  then show "exchange a j = take j a @ a ! (j + 1) # a ! j # drop (j + 2) a"
    using 1 by simp
qed

lemma filter_exchange:
  assumes "j + 1 < length a" "\<not> (P (a ! j) \<and> P (a ! (j + 1)))"
  shows "filter P (exchange a j) = filter P a"
proof -
  note a = exchange_decomp(1) [OF assms(1)] and e = exchange_decomp(2) [OF assms(1)]
  have "filter P (exchange a j) = filter P (take j a @ a ! (j + 1) # a ! j # drop (j + 2) a)"
    by (simp only: e)
  also have "\<dots> = filter P (take j a @ a ! j # a ! (j + 1) # drop (j + 2) a)"
    using assms(2) by auto
  also have "\<dots> = filter P a"
    by (rule arg_cong [OF a [symmetric]])
  finally show ?thesis .
qed

lemma inner_body_eq:
  "inner_body key reverse j (a, s) =
     (if \<not> precedes key reverse (a ! j) (a ! (j + 1)) then (exchange a j, True) else (a, s))"
  by (auto simp: inner_body_def precedes_def)

lemma drop_Suc_eq: "drop m a = drop m b \<Longrightarrow> drop (Suc m) a = drop (Suc m) b"
  by (metis drop_Suc tl_drop)

lemma pass_invI:
  assumes "length a = length arr" "mset a = mset arr"
    and "\<And>k. filter (\<lambda>x. key x = k) a = filter (\<lambda>x. key x = k) arr"
    and "drop (Suc m) a = drop (Suc m) arr"
    and "\<And>p. p \<le> m \<Longrightarrow> precedes key reverse (a ! p) (a ! m)"
    and "\<not> s \<Longrightarrow> a = arr"
    and "\<And>p. \<not> s \<Longrightarrow> p < m \<Longrightarrow> precedes key reverse (arr ! p) (arr ! Suc p)"
  shows "pass_inv key reverse arr m (a, s)"
  unfolding pass_inv_def prod.case using assms by blast

lemma pass_invD:
  assumes "pass_inv key reverse arr m (a, s)"
  shows "length a = length arr" "mset a = mset arr"
    and "filter (\<lambda>x. key x = k) a = filter (\<lambda>x. key x = k) arr"
    and "drop (Suc m) a = drop (Suc m) arr"
    and "p \<le> m \<Longrightarrow> precedes key reverse (a ! p) (a ! m)"
    and "\<not> s \<Longrightarrow> a = arr"
    and "\<not> s \<Longrightarrow> q < m \<Longrightarrow> precedes key reverse (arr ! q) (arr ! Suc q)"
  using assms unfolding pass_inv_def prod.case by blast+

lemma pass_inv_keep:
  assumes inv: "pass_inv key reverse arr m (a, s)"
    and ok: "precedes key reverse (a ! m) (a ! (m + 1))"
  shows "pass_inv key reverse arr (Suc m) (a, s)"
proof (rule pass_invI)
  show "length a = length arr" by (rule pass_invD(1) [OF inv])
  show "mset a = mset arr" by (rule pass_invD(2) [OF inv])
  show "filter (\<lambda>x. key x = k) a = filter (\<lambda>x. key x = k) arr" for k
    by (rule pass_invD(3) [OF inv])
  show "drop (Suc (Suc m)) a = drop (Suc (Suc m)) arr"
    by (rule drop_Suc_eq [OF pass_invD(4) [OF inv]])
  show "precedes key reverse (a ! p) (a ! Suc m)" if "p \<le> Suc m" for p
  proof (cases "p = Suc m")
    case True
    then show ?thesis by (simp only: precedes_refl)
  next
    case False
    with that have "p \<le> m" by simp
    then have "precedes key reverse (a ! p) (a ! m)"
      by (rule pass_invD(5) [OF inv])
    moreover have "precedes key reverse (a ! m) (a ! Suc m)"
      using ok by simp
    ultimately show ?thesis by (rule precedes_trans)
  qed
  show "a = arr" if "\<not> s" using that by (rule pass_invD(6) [OF inv])
  show "precedes key reverse (arr ! p) (arr ! Suc p)" if "\<not> s" "p < Suc m" for p
  proof (cases "p = m")
    case True
    have "a = arr" using that(1) by (rule pass_invD(6) [OF inv])
    then show ?thesis using ok True by simp
  next
    case False
    with that(2) have "p < m" by simp
    with that(1) show ?thesis by (rule pass_invD(7) [OF inv])
  qed
qed

lemma pass_inv_exchange:
  assumes inv: "pass_inv key reverse arr m (a, s)"
    and len: "m + 1 < length a"
    and bad: "\<not> precedes key reverse (a ! m) (a ! (m + 1))"
  shows "pass_inv key reverse arr (Suc m) (exchange a m, True)"
proof (rule pass_invI)
  have ne: "key (a ! m) \<noteq> key (a ! (m + 1))"
    using bad by (auto simp: precedes_def split: if_splits)
  have swapped_ok: "precedes key reverse (a ! (m + 1)) (a ! m)"
    using bad precedes_total [of key reverse "a ! m" "a ! (m + 1)"] by simp
  show "length (exchange a m) = length arr"
    using pass_invD(1) [OF inv] by simp
  show "mset (exchange a m) = mset arr"
    using pass_invD(2) [OF inv] mset_exchange [OF len] by simp
  show "filter (\<lambda>x. key x = k) (exchange a m) = filter (\<lambda>x. key x = k) arr" for k
  proof -
    have "\<not> (key (a ! m) = k \<and> key (a ! (m + 1)) = k)"
      using ne by auto
    with len have "filter (\<lambda>x. key x = k) (exchange a m) = filter (\<lambda>x. key x = k) a"
      by (rule filter_exchange)
    also have "\<dots> = filter (\<lambda>x. key x = k) arr"
      by (rule pass_invD(3) [OF inv])
    finally show ?thesis .
  qed
  show "drop (Suc (Suc m)) (exchange a m) = drop (Suc (Suc m)) arr"
  proof -
    have "drop (Suc (Suc m)) (exchange a m) = drop (Suc (Suc m)) a"
      by (rule drop_exchange) simp
    also have "\<dots> = drop (Suc (Suc m)) arr"
      by (rule drop_Suc_eq [OF pass_invD(4) [OF inv]])
    finally show ?thesis .
  qed
  show "precedes key reverse (exchange a m ! p) (exchange a m ! Suc m)" if p: "p \<le> Suc m" for p
  proof -
    have top: "exchange a m ! Suc m = a ! m"
      using nth_exchange [OF len, of "Suc m"] by simp
    consider "p = Suc m" | "p = m" | "p < m"
      using p by linarith
    then show ?thesis
    proof cases
      case 1
      then show ?thesis by (simp only: precedes_refl)
    next
      case 2
      have "exchange a m ! m = a ! (m + 1)"
        using nth_exchange [OF len, of m] by simp
      then show ?thesis using 2 top swapped_ok by simp
    next
      case 3
      then have "exchange a m ! p = a ! p"
        using nth_exchange [OF len, of p] by simp
      moreover have "precedes key reverse (a ! p) (a ! m)"
        using 3 by (intro pass_invD(5) [OF inv]) simp
      ultimately show ?thesis using top by simp
    qed
  qed
  show "exchange a m = arr" if "\<not> True" using that by simp
  show "precedes key reverse (arr ! p) (arr ! Suc p)" if "\<not> True" for p using that by simp
qed

lemma pass_inv_fold:
  "m < length arr \<Longrightarrow>
     pass_inv key reverse arr m (fold (inner_body key reverse) [0..<m] (arr, False))"
proof (induction m)
  case 0
  have "pass_inv key reverse arr 0 (arr, False)"
    by (rule pass_invI) (simp_all add: precedes_refl)
  then show ?case by simp
next
  case (Suc m)
  obtain a s where f: "fold (inner_body key reverse) [0..<m] (arr, False) = (a, s)"
    by (cases "fold (inner_body key reverse) [0..<m] (arr, False)")
  have inv: "pass_inv key reverse arr m (a, s)"
    using Suc f by simp
  have len: "m + 1 < length a"
    using pass_invD(1) [OF inv] Suc.prems by simp
  have step: "fold (inner_body key reverse) [0..<Suc m] (arr, False) =
              inner_body key reverse m (a, s)"
    using f by simp
  show ?case
  proof (cases "precedes key reverse (a ! m) (a ! (m + 1))")
    case True
    have "inner_body key reverse m (a, s) = (a, s)"
      using True by (simp add: inner_body_eq)
    then show ?thesis
      using pass_inv_keep [OF inv True] step by simp
  next
    case False
    have "inner_body key reverse m (a, s) = (exchange a m, True)"
      using False by (simp add: inner_body_eq)
    then show ?thesis
      using pass_inv_exchange [OF inv len False] step by simp
  qed
qed

section \<open>The passes of \<^verbatim>\<open>bubble_sort\<close>\<close>

lemma transp_precedes: "transp (precedes key reverse)"
  by (rule transpI) (rule precedes_trans)

lemma mset_take_eq:
  assumes "mset a = mset b" "drop k a = drop k b"
  shows "mset (take k a) = mset (take k b)"
proof -
  have "mset (take k a) + mset (drop k a) = mset (take k b) + mset (drop k b)"
    using assms(1) by (metis append_take_drop_id mset_append)
  then show ?thesis using assms(2) by simp
qed

lemma set_take_eq:
  assumes "mset a = mset b" "drop k a = drop k b"
  shows "set (take k a) = set (take k b)"
  using mset_take_eq [OF assms] by (rule mset_eq_setD)

lemma outer_inv_0: "outer_inv key reverse (length a) 0 a"
  by (simp add: outer_inv_def)

lemma outer_inv_done:
  assumes inv: "outer_inv key reverse n i a" and i: "i < n"
    and adj: "\<And>p. p < n - i - 1 \<Longrightarrow> precedes key reverse (a ! p) (a ! Suc p)"
  shows "sorted_wrt (precedes key reverse) a"
proof -
  have len: "length a = n"
    and srt: "sorted_wrt (precedes key reverse) (drop (n - i) a)"
    and cross: "\<And>x y. x \<in> set (take (n - i) a) \<Longrightarrow> y \<in> set (drop (n - i) a) \<Longrightarrow>
                  precedes key reverse x y"
    using inv by (simp_all add: outer_inv_def)
  have "precedes key reverse (a ! p) (a ! Suc p)" if p: "Suc p < length a" for p
  proof -
    consider "p < n - i - 1" | "p = n - i - 1" | "n - i \<le> p"
      by linarith
    then show ?thesis
    proof cases
      case 1
      then show ?thesis by (rule adj)
    next
      case 2
      have "a ! p \<in> set (take (n - i) a)"
        using 2 i len by (auto simp: in_set_conv_nth intro!: exI [of _ p])
      moreover have "a ! Suc p \<in> set (drop (n - i) a)"
      proof -
        have sp: "Suc p = n - i"
          using 2 i by simp
        have "drop (n - i) a ! 0 \<in> set (drop (n - i) a)"
          using p len sp by (intro nth_mem) simp
        moreover have "drop (n - i) a ! 0 = a ! Suc p"
          using p len sp by simp
        ultimately show ?thesis by simp
      qed
      ultimately show ?thesis by (rule cross)
    next
      case 3
      have "precedes key reverse (drop (n - i) a ! (p - (n - i))) (drop (n - i) a ! (Suc p - (n - i)))"
        using 3 p len by (intro sorted_wrt_nth_less [OF srt]) auto
      then show ?thesis using 3 p len by simp
    qed
  qed
  then show ?thesis
    by (simp add: sorted_wrt_iff_nth_Suc_transp [OF transp_precedes])
qed

lemma outer_inv_step:
  assumes inv: "outer_inv key reverse n i a" and i: "i < n"
    and p: "pass_inv key reverse a (n - i - 1) (a', s)"
  shows "outer_inv key reverse n (i + 1) a'"
proof -
  define m where "m = n - i - 1"
  have ni: "n - i = Suc m" and ni1: "n - (i + 1) = m"
    using i by (simp_all add: m_def)
  have len: "length a = n"
    and srt: "sorted_wrt (precedes key reverse) (drop (Suc m) a)"
    and cross: "\<And>x y. x \<in> set (take (Suc m) a) \<Longrightarrow> y \<in> set (drop (Suc m) a) \<Longrightarrow>
                  precedes key reverse x y"
    using inv by (simp_all add: outer_inv_def ni)
  have p': "pass_inv key reverse a m (a', s)"
    using p by (simp add: m_def)
  note len' = pass_invD(1) [OF p'] and ms = pass_invD(2) [OF p'] and dr = pass_invD(4) [OF p']
  have m: "m < length a'"
    using len len' i by (simp add: m_def)
  have st: "set (take (Suc m) a') = set (take (Suc m) a)"
    using ms dr by (rule set_take_eq)
  have dm: "drop m a' = a' ! m # drop (Suc m) a"
    using m dr by (simp add: Cons_nth_drop_Suc [symmetric])
  have top_in: "a' ! m \<in> set (take (Suc m) a)"
  proof -
    have "a' ! m \<in> set (take (Suc m) a')"
      using m by (auto simp: in_set_conv_nth intro!: exI [of _ m])
    then show ?thesis by (simp only: st)
  qed
  have s1: "sorted_wrt (precedes key reverse) (drop m a')"
    using srt cross [OF top_in] by (simp add: dm)
  have s2: "precedes key reverse x y"
    if x: "x \<in> set (take m a')" and y: "y \<in> set (drop m a')" for x y
  proof -
    obtain q where q: "q < m" "x = a' ! q"
      using x m by (auto simp: in_set_conv_nth)
    have xm: "precedes key reverse x (a' ! m)"
      using q pass_invD(5) [OF p', of q] by simp
    from y consider "y = a' ! m" | "y \<in> set (drop (Suc m) a)"
      by (auto simp: dm)
    then show ?thesis
    proof cases
      case 1
      then show ?thesis using xm by simp
    next
      case 2
      have "precedes key reverse (a' ! m) y"
        using top_in 2 by (rule cross)
      with xm show ?thesis by (rule precedes_trans)
    qed
  qed
  show ?thesis
    unfolding outer_inv_def ni1 using len len' s1 s2 by simp
qed

lemma outer_loop_sorted:
  "outer_inv key reverse n i a \<Longrightarrow> sorted_wrt (precedes key reverse) (outer_loop key reverse n i a)"
proof (induction key reverse n i a rule: outer_loop.induct)
  case (1 key reverse n i a)
  note unf = outer_loop.simps [of key reverse n i a]
  show ?case
  proof (cases "i < n")
    case False
    then have "outer_loop key reverse n i a = a"
      using unf by simp
    moreover have "sorted_wrt (precedes key reverse) a"
      using False "1.prems" by (simp add: outer_inv_def)
    ultimately show ?thesis by simp
  next
    case True
    obtain a' s where f: "fold (inner_body key reverse) [0..<n - i - 1] (a, False) = (a', s)"
      by (cases "fold (inner_body key reverse) [0..<n - i - 1] (a, False)")
    have len: "length a = n"
      using "1.prems" by (simp add: outer_inv_def)
    have p: "pass_inv key reverse a (n - i - 1) (a', s)"
      using pass_inv_fold [of "n - i - 1" a key reverse] True len f by simp
    show ?thesis
    proof (cases s)
      case False
      then have r: "outer_loop key reverse n i a = a'"
        using unf True f by simp
      have e: "a' = a"
        using False by (intro pass_invD(6) [OF p]) simp
      have "sorted_wrt (precedes key reverse) a"
      proof (rule outer_inv_done [OF "1.prems" True])
        fix q assume "q < n - i - 1"
        with False show "precedes key reverse (a ! q) (a ! Suc q)"
          by (intro pass_invD(7) [OF p]) simp_all
      qed
      then show ?thesis by (simp add: r e)
    next
      case s: True
      then have r: "outer_loop key reverse n i a = outer_loop key reverse n (i + 1) a'"
        using unf True f by simp
      have "outer_inv key reverse n (i + 1) a'"
        using "1.prems" True p by (rule outer_inv_step)
      then have "sorted_wrt (precedes key reverse) (outer_loop key reverse n (i + 1) a')"
        using "1.IH" [OF True f [symmetric]] s by simp
      then show ?thesis by (simp only: r)
    qed
  qed
qed

lemma outer_loop_perm:
  "length a = n \<Longrightarrow>
     length (outer_loop key reverse n i a) = n \<and>
     mset (outer_loop key reverse n i a) = mset a \<and>
     (\<forall>k. filter (\<lambda>x. key x = k) (outer_loop key reverse n i a) = filter (\<lambda>x. key x = k) a)"
proof (induction key reverse n i a rule: outer_loop.induct)
  case (1 key reverse n i a)
  note unf = outer_loop.simps [of key reverse n i a]
  show ?case
  proof (cases "i < n")
    case False
    then have "outer_loop key reverse n i a = a"
      using unf by simp
    then show ?thesis using "1.prems" by simp
  next
    case True
    obtain a' s where f: "fold (inner_body key reverse) [0..<n - i - 1] (a, False) = (a', s)"
      by (cases "fold (inner_body key reverse) [0..<n - i - 1] (a, False)")
    have p: "pass_inv key reverse a (n - i - 1) (a', s)"
      using pass_inv_fold [of "n - i - 1" a key reverse] True "1.prems" f by simp
    note len' = pass_invD(1) [OF p] and ms = pass_invD(2) [OF p] and fl = pass_invD(3) [OF p]
    show ?thesis
    proof (cases s)
      case False
      then have r: "outer_loop key reverse n i a = a'"
        using unf True f by simp
      show ?thesis
        unfolding r using len' ms fl "1.prems" by simp
    next
      case s: True
      then have r: "outer_loop key reverse n i a = outer_loop key reverse n (i + 1) a'"
        using unf True f by simp
      have "length a' = n"
        using len' "1.prems" by simp
      then have ih: "length (outer_loop key reverse n (i + 1) a') = n \<and>
         mset (outer_loop key reverse n (i + 1) a') = mset a' \<and>
         (\<forall>k. filter (\<lambda>x. key x = k) (outer_loop key reverse n (i + 1) a') =
              filter (\<lambda>x. key x = k) a')"
        using "1.IH" [OF True f [symmetric]] s by simp
      show ?thesis
        unfolding r using ih ms fl by simp
    qed
  qed
qed

lemma sorted_bubble_sort: "sorted_wrt (precedes key reverse) (bubble_sort key arr reverse)"
  unfolding bubble_sort_def Let_def by (rule outer_loop_sorted [OF outer_inv_0])

lemma length_bubble_sort: "length (bubble_sort key arr reverse) = length arr"
  unfolding bubble_sort_def Let_def using outer_loop_perm [where a = arr and n = "length arr" and i = 0 and key = key and reverse = reverse] by simp

lemma mset_bubble_sort: "mset (bubble_sort key arr reverse) = mset arr"
  unfolding bubble_sort_def Let_def using outer_loop_perm [where a = arr and n = "length arr" and i = 0 and key = key and reverse = reverse] by simp


lemma length_merge_sort: "length (merge_sort key arr reverse) = length arr"
  using mset_merge_sort [of key arr reverse] by (rule mset_eq_length)

section \<open>Permutation, order, stability and agreement of the two sorts\<close>

text \<open>
  Claim C1: for every list \<open>S\<close> and either direction \<open>d\<close>, the list returned by
  \<^verbatim>\<open>bubble_sort(S, d)\<close> and the list returned by \<^verbatim>\<open>merge_sort(S, d)\<close> are each a
  permutation of \<open>S\<close>: the same multiset of elements and the same length.
\<close>

theorem sort_permutation:
  "mset (bubble_sort key S d) = mset S \<and> length (bubble_sort key S d) = length S \<and>
   mset (merge_sort key S d) = mset S \<and> length (merge_sort key S d) = length S"
  by (simp add: mset_bubble_sort length_bubble_sort mset_merge_sort length_merge_sort)

lemma precedes_nth:
  assumes "sorted_wrt (precedes key d) R" "i + 1 < length R"
  shows "if d then key (R ! i) \<ge> key (R ! (i + 1)) else key (R ! i) \<le> key (R ! (i + 1))"
proof -
  have "precedes key d (R ! i) (R ! (i + 1))"
    using sorted_wrt_nth_less [OF assms(1), of i "i + 1"] assms(2) by simp
  then show ?thesis by (simp add: precedes_def)
qed

text \<open>
  Claim C2: for every list \<open>S\<close> and either direction \<open>d\<close>, the result \<open>R\<close> of
  \<^verbatim>\<open>bubble_sort(S, d)\<close> and of \<^verbatim>\<open>merge_sort(S, d)\<close> is ordered between every adjacent pair:
  for all \<open>i\<close> with \<open>i + 1 < len(R)\<close>, \<open>R[i] \<le> R[i+1]\<close> when \<open>d\<close> is ascending
  (\<^verbatim>\<open>reverse = False\<close>) and \<open>R[i] \<ge> R[i+1]\<close> when \<open>d\<close> is descending (\<^verbatim>\<open>reverse = True\<close>).
\<close>

theorem sort_adjacent_ordered:
  "(\<forall>i. i + 1 < length (bubble_sort key S d) \<longrightarrow>
      (if d then key (bubble_sort key S d ! i) \<ge> key (bubble_sort key S d ! (i + 1))
       else key (bubble_sort key S d ! i) \<le> key (bubble_sort key S d ! (i + 1)))) \<and>
   (\<forall>i. i + 1 < length (merge_sort key S d) \<longrightarrow>
      (if d then key (merge_sort key S d ! i) \<ge> key (merge_sort key S d ! (i + 1))
       else key (merge_sort key S d ! i) \<le> key (merge_sort key S d ! (i + 1))))"
  using precedes_nth [OF sorted_bubble_sort] precedes_nth [OF sorted_merge_sort] by blast

text \<open>
  The list \<open>[3, 1, 2]\<close> sorted descending, at the first adjacent pair.
\<close>

theorem sort_adjacent_ordered_witness:
  "(0::nat) + 1 < length (bubble_sort (\<lambda>x. x) [3, 1, 2 :: int] True) \<and>
   bubble_sort (\<lambda>x. x) [3, 1, 2 :: int] True ! 0 \<ge> bubble_sort (\<lambda>x. x) [3, 1, 2] True ! (0 + 1) \<and>
   (0::nat) + 1 < length (merge_sort (\<lambda>x. x) [3, 1, 2 :: int] True) \<and>
   merge_sort (\<lambda>x. x) [3, 1, 2 :: int] True ! 0 \<ge> merge_sort (\<lambda>x. x) [3, 1, 2] True ! (0 + 1)"
  using sort_adjacent_ordered [of "\<lambda>x. x" "[3, 1, 2 :: int]" True]
  by (simp add: length_bubble_sort length_merge_sort)








section \<open>The traced sorts\<close>

lemma inner_body_steps_eq:
  "\<exists>out'. inner_body_steps key reverse j (a, s, st, out) =
     (fst (inner_body key reverse j (a, s)), snd (inner_body key reverse j (a, s)), st + 1, out')"
  by (simp add: inner_body_steps_def inner_body_def Let_def)

lemma fold_inner_body_steps:
  "\<exists>out'. fold (inner_body_steps key reverse) js (a, s, st, out) =
     (fst (fold (inner_body key reverse) js (a, s)),
      snd (fold (inner_body key reverse) js (a, s)), st + int (length js), out')"
proof (induction js arbitrary: a s st out)
  case Nil
  show ?case by simp
next
  case (Cons j js)
  obtain out1 where 1: "inner_body_steps key reverse j (a, s, st, out) =
     (fst (inner_body key reverse j (a, s)), snd (inner_body key reverse j (a, s)), st + 1, out1)"
    using inner_body_steps_eq [of key reverse j a s st out] by blast
  obtain out2 where 2: "fold (inner_body_steps key reverse) js
       (fst (inner_body key reverse j (a, s)), snd (inner_body key reverse j (a, s)), st + 1, out1) =
     (fst (fold (inner_body key reverse) js (inner_body key reverse j (a, s))),
      snd (fold (inner_body key reverse) js (inner_body key reverse j (a, s))),
      st + 1 + int (length js), out2)"
    using Cons.IH [of "fst (inner_body key reverse j (a, s))"
        "snd (inner_body key reverse j (a, s))" "st + 1" out1] by auto
  show ?case
    by (rule exI [of _ out2]) (simp add: 1 2)
qed

lemma outer_loop_steps_result:
  "fst (outer_loop_steps key reverse n i (a, st, out)) = outer_loop key reverse n i a"
proof (induction key reverse n i "(a, st, out)" arbitrary: a st out rule: outer_loop_steps.induct)
  case (1 key reverse n i a st out)
  note unf = outer_loop_steps.simps [of key reverse n i a st out]
    and unf' = outer_loop.simps [of key reverse n i a]
  show ?case
  proof (cases "i < n")
    case False
    then show ?thesis using unf unf' by simp
  next
    case True
    obtain a' s where f: "fold (inner_body key reverse) [0..<n - i - 1] (a, False) = (a', s)"
      by (cases "fold (inner_body key reverse) [0..<n - i - 1] (a, False)")
    obtain out' where g: "fold (inner_body_steps key reverse) [0..<n - i - 1]
        (a, False, st, out @ [PassHeader (i + 1)]) = (a', s, st + int (n - i - 1), out')"
      using fold_inner_body_steps [of key reverse "[0..<n - i - 1]" a False st
          "out @ [PassHeader (i + 1)]"] f by auto
    show ?thesis
    proof (cases s)
      case False
      then show ?thesis using unf unf' True f g by simp
    next
      case s: True
      have "fst (outer_loop_steps key reverse n (i + 1) (a', st + int (n - i - 1), out' @ [Blank])) =
            outer_loop key reverse n (i + 1) a'"
        using "1.hyps" [OF True g [symmetric] refl refl] s by simp
      then show ?thesis using unf unf' True f g s by simp
    qed
  qed
qed

lemma bubble_sort_with_steps_result:
  "fst (fst (bubble_sort_with_steps key arr reverse)) = bubble_sort key arr reverse"
proof -
  obtain a st out where r: "outer_loop_steps key reverse (length arr) 0 (arr, 0, [Initial arr, Rule]) =
      (a, st, out)"
    by (metis prod_cases3)
  have "a = outer_loop key reverse (length arr) 0 arr"
    using outer_loop_steps_result [of key reverse "length arr" 0 arr 0 "[Initial arr, Rule]"] r
    by simp
  then show ?thesis
    by (simp add: bubble_sort_with_steps_def bubble_sort_def Let_def r)
qed

lemma merge_sort_with_steps_base:
  "length arr \<le> 1 \<Longrightarrow>
     merge_sort_with_steps key arr reverse depth = ((arr, 0), [Sorting depth arr, BaseCase depth arr])"
  using merge_sort_with_steps.simps [of key arr reverse depth] by simp

lemma merge_sort_with_steps_rec:
  assumes "\<not> length arr \<le> 1"
  shows "fst (merge_sort_with_steps key arr reverse depth) =
     (merge key
        (fst (fst (merge_sort_with_steps key (take (length arr div 2) arr) reverse (depth + 1))))
        (fst (fst (merge_sort_with_steps key (drop (length arr div 2) arr) reverse (depth + 1))))
        reverse,
      snd (fst (merge_sort_with_steps key (take (length arr div 2) arr) reverse (depth + 1))) +
      snd (fst (merge_sort_with_steps key (drop (length arr div 2) arr) reverse (depth + 1))) +
      (int (length (fst (fst (merge_sort_with_steps key (take (length arr div 2) arr) reverse (depth + 1))))) +
       int (length (fst (fst (merge_sort_with_steps key (drop (length arr div 2) arr) reverse (depth + 1)))))))"
  using assms merge_sort_with_steps.simps [of key arr reverse depth]
  by (simp add: Let_def split: prod.splits)

lemma merge_sort_with_steps_result:
  "fst (fst (merge_sort_with_steps key arr reverse depth)) = merge_sort key arr reverse"
proof (induction key arr reverse depth rule: merge_sort_with_steps.induct)
  case (1 key arr reverse depth)
  show ?case
  proof (cases "length arr \<le> 1")
    case True
    then show ?thesis
      by (simp add: merge_sort_with_steps_base merge_sort_base)
  next
    case False
    have l: "fst (fst (merge_sort_with_steps key (take (length arr div 2) arr) reverse (depth + 1))) =
             merge_sort key (take (length arr div 2) arr) reverse"
      by (rule "1.IH"(1) [OF False refl refl refl])
    obtain ls lo lout where lr: "merge_sort_with_steps key (take (length arr div 2) arr) reverse (depth + 1) =
        ((ls, lo), lout)"
      by (metis surj_pair)
    have r: "fst (fst (merge_sort_with_steps key (drop (length arr div 2) arr) reverse (depth + 1))) =
             merge_sort key (drop (length arr div 2) arr) reverse"
      by (rule "1.IH"(2) [OF False refl refl refl lr [symmetric] refl])
    show ?thesis
      using merge_sort_with_steps_rec [OF False, of key reverse depth]
        merge_sort.simps [of key arr reverse] False l r
      by (simp add: Let_def)
  qed
qed

text \<open>
  Claim C5: tracing does not alter the result. For every list \<open>S\<close> and either direction
  \<open>d\<close>, the list returned by \<^verbatim>\<open>bubble_sort_with_steps(S, d)\<close> is \<^verbatim>\<open>bubble_sort(S, d)\<close>, and
  the list returned by \<^verbatim>\<open>merge_sort_with_steps(S, d)\<close>, at any recursion depth, is
  \<^verbatim>\<open>merge_sort(S, d)\<close>.
\<close>

theorem traced_result_eq_untraced:
  "fst (fst (bubble_sort_with_steps key S d)) = bubble_sort key S d \<and>
   fst (fst (merge_sort_with_steps key S d depth)) = merge_sort key S d"
  by (simp add: bubble_sort_with_steps_result merge_sort_with_steps_result)

section \<open>The step count of \<^verbatim>\<open>bubble_sort_with_steps\<close> on sorted input\<close>

lemma fold_inner_body_steps_sorted:
  assumes "sorted (map key S)" "m < length S"
  shows "fold (inner_body_steps key False) [0..<m] (S, False, st, out) = (S, False, st + int m, out)"
  using assms(2)
proof (induction m)
  case 0
  show ?case by simp
next
  case (Suc m)
  have "key (S ! m) \<le> key (S ! (m + 1))"
    using sorted_nth_mono [OF assms(1), of m "m + 1"] Suc.prems by simp
  then have "inner_body_steps key False m (S, False, st + int m, out) =
             (S, False, st + int m + 1, out)"
    by (simp add: inner_body_steps_def Let_def)
  then show ?case
    using Suc by simp
qed

lemma outer_loop_steps_sorted:
  assumes "sorted (map key S)" "S \<noteq> []"
  shows "outer_loop_steps key False (length S) 0 (S, 0, out) =
         (S, int (length S) - 1, out @ [PassHeader 1, NoSwaps])"
proof -
  have "fold (inner_body_steps key False) [0..<length S - 0 - 1] (S, False, 0, out @ [PassHeader (0 + 1)]) =
        (S, False, 0 + int (length S - 0 - 1), out @ [PassHeader (0 + 1)])"
    using assms by (intro fold_inner_body_steps_sorted) simp_all
  then show ?thesis
    using assms(2) outer_loop_steps.simps [of key False "length S" 0 S 0 out]
    by (simp add: of_nat_diff Suc_leI)
qed

text \<open>
  Claim C7, as amended: for every non-empty list of length \<open>n\<close> that is already sorted
  ascending, \<^verbatim>\<open>bubble_sort_with_steps\<close> with \<^verbatim>\<open>reverse = False\<close> returns the pair of the list
  itself and \<open>n - 1\<close>, and prints exactly one pass header, no exchange line and the line
  that no exchange was made: one pass, \<open>n - 1\<close> comparisons and no swap.
\<close>

theorem bubble_sort_with_steps_sorted_input:
  "sorted (map key S) \<and> S \<noteq> [] \<longrightarrow>
     bubble_sort_with_steps key S False =
       ((S, int (length S) - 1),
        [Initial S, Rule, PassHeader 1, NoSwaps, Rule, Result S, Total (int (length S) - 1)])"
  by (simp add: bubble_sort_with_steps_def Let_def outer_loop_steps_sorted)

text \<open>
  The list \<open>[1, 2, 3, 4, 5]\<close>: one pass, four steps.
\<close>

theorem bubble_sort_with_steps_sorted_input_witness:
  "sorted (map (\<lambda>x. x) [1, 2, 3, 4, 5 :: int]) \<and> [1, 2, 3, 4, 5 :: int] \<noteq> [] \<and>
   bubble_sort_with_steps (\<lambda>x. x) [1, 2, 3, 4, 5 :: int] False =
     (([1, 2, 3, 4, 5], 4),
      [Initial [1, 2, 3, 4, 5], Rule, PassHeader 1, NoSwaps, Rule, Result [1, 2, 3, 4, 5], Total 4])"
  using bubble_sort_with_steps_sorted_input [of "\<lambda>x. x" "[1, 2, 3, 4, 5 :: int]"] by simp

text \<open>
  Claim C7 as stated covers the empty list, which is sorted and has length \<open>0\<close>: there
  the outer loop runs over \<^verbatim>\<open>range(0)\<close>, so no pass is made at all and the step count
  returned is \<open>0\<close>, not \<open>n - 1 = -1\<close>.
\<close>

theorem bubble_sort_with_steps_empty_counterexample:
  "\<not> (\<forall>S :: int list. sorted S \<longrightarrow>
        fst (bubble_sort_with_steps (\<lambda>x. x) S False) = (S, int (length S) - 1)) \<and>
   bubble_sort_with_steps (\<lambda>x. x) ([] :: int list) False =
     (([], 0), [Initial [], Rule, Rule, Result [], Total 0])"
proof -
  have e: "bubble_sort_with_steps (\<lambda>x. x) ([] :: int list) False =
           (([], 0), [Initial [], Rule, Rule, Result [], Total 0])"
    using outer_loop_steps.simps [of "\<lambda>x. x" False 0 0 "[] :: int list" 0 "[Initial [], Rule]"]
    by (simp add: bubble_sort_with_steps_def)
  have "\<not> (\<forall>S :: int list. sorted S \<longrightarrow>
        fst (bubble_sort_with_steps (\<lambda>x. x) S False) = (S, int (length S) - 1))"
  proof
    assume "\<forall>S :: int list. sorted S \<longrightarrow>
        fst (bubble_sort_with_steps (\<lambda>x. x) S False) = (S, int (length S) - 1)"
    then have "fst (bubble_sort_with_steps (\<lambda>x. x) ([] :: int list) False) =
               ([], int (length ([] :: int list)) - 1)"
      by simp
    then show False by (simp add: e)
  qed
  then show ?thesis using e by simp
qed

section \<open>The operation count of \<^verbatim>\<open>merge_sort_with_steps\<close>\<close>

lemma length_merge_sort_with_steps:
  "length (fst (fst (merge_sort_with_steps key arr reverse depth))) = length arr"
  by (simp add: merge_sort_with_steps_result length_merge_sort)

lemma merge_sort_with_steps_ops_base:
  "length arr \<le> 1 \<Longrightarrow> snd (fst (merge_sort_with_steps key arr reverse depth)) = 0"
  by (simp add: merge_sort_with_steps_base)

lemma merge_sort_with_steps_ops_rec:
  assumes "\<not> length arr \<le> 1"
  shows "snd (fst (merge_sort_with_steps key arr reverse depth)) =
     snd (fst (merge_sort_with_steps key (take (length arr div 2) arr) reverse (depth + 1))) +
     snd (fst (merge_sort_with_steps key (drop (length arr div 2) arr) reverse (depth + 1))) +
     int (length arr)"
proof -
  have "int (length (take (length arr div 2) arr)) + int (length (drop (length arr div 2) arr)) =
        int (length arr)"
    by simp
  then show ?thesis
    using arg_cong [OF merge_sort_with_steps_rec [OF assms, of key reverse depth], of snd]
    by (simp only: snd_conv length_merge_sort_with_steps)
qed

lemma halves_arith:
  assumes "a + b = (n::nat)"
  shows "int (a * k) + int (b * k) + int n = int (n * Suc k)"
proof -
  have "int (a * k) + int (b * k) + int (a + b) = int ((a + b) * Suc k)"
    by (simp add: algebra_simps)
  then show ?thesis by (simp only: assms)
qed

lemma merge_sort_with_steps_ops_le:
  "length arr \<le> 2 ^ k \<Longrightarrow>
     snd (fst (merge_sort_with_steps key arr reverse depth)) \<le> int (length arr * k)"
proof (induction k arbitrary: arr depth)
  case 0
  then show ?case by (simp add: merge_sort_with_steps_ops_base)
next
  case (Suc k)
  show ?case
  proof (cases "length arr \<le> 1")
    case True
    then show ?thesis by (simp add: merge_sort_with_steps_ops_base)
  next
    case False
    let ?l = "take (length arr div 2) arr" and ?r = "drop (length arr div 2) arr"
    have ll: "length ?l \<le> 2 ^ k" and lr: "length ?r \<le> 2 ^ k"
      using Suc.prems by simp_all
    have sum: "length ?l + length ?r = length arr"
      by simp
    have "snd (fst (merge_sort_with_steps key arr reverse depth)) \<le>
          int (length ?l * k) + int (length ?r * k) + int (length arr)"
      using Suc.IH [OF ll, of "depth + 1"] Suc.IH [OF lr, of "depth + 1"]
      by (simp only: merge_sort_with_steps_ops_rec [OF False])
    also have "\<dots> = int (length arr * Suc k)"
      by (rule halves_arith [OF sum])
    finally show ?thesis .
  qed
qed

lemma merge_sort_with_steps_ops_pow2:
  "length arr = 2 ^ k \<Longrightarrow>
     snd (fst (merge_sort_with_steps key arr reverse depth)) = int (length arr * k)"
proof (induction k arbitrary: arr depth)
  case 0
  then show ?case by (simp add: merge_sort_with_steps_ops_base)
next
  case (Suc k)
  let ?l = "take (length arr div 2) arr" and ?r = "drop (length arr div 2) arr"
  have "length arr = 2 * 2 ^ k"
    using Suc.prems by simp
  moreover have "(1::nat) \<le> 2 ^ k"
    by simp
  ultimately have big: "\<not> length arr \<le> 1"
    by linarith
  have ll: "length ?l = 2 ^ k" and lr: "length ?r = 2 ^ k"
    using Suc.prems by simp_all
  have sum: "length ?l + length ?r = length arr"
    by simp
  have "snd (fst (merge_sort_with_steps key arr reverse depth)) =
        int (length ?l * k) + int (length ?r * k) + int (length arr)"
    using Suc.IH [OF ll, of "depth + 1"] Suc.IH [OF lr, of "depth + 1"]
    by (simp only: merge_sort_with_steps_ops_rec [OF big])
  also have "\<dots> = int (length arr * Suc k)"
    by (rule halves_arith [OF sum])
  finally show ?case .
qed

lemma ceillog2_eq_ceiling_log:
  "0 < n \<Longrightarrow> int (ceillog2 n) = \<lceil>log 2 (real n)\<rceil>"
proof -
  assume n: "0 < n"
  then have "0 \<le> log 2 (real n)"
    by simp
  then have "0 \<le> \<lceil>log 2 (real n)\<rceil>"
    by linarith
  then show ?thesis
    using n by (simp add: ceillog2_def)
qed

text \<open>
  Claim C8, as amended: for every list of length \<open>n\<close> the operation count returned by
  \<^verbatim>\<open>merge_sort_with_steps\<close> is at most \<open>n * ceillog2 n\<close>, where \<open>ceillog2 n\<close> is the
  logarithm of \<open>n\<close> to base 2 rounded up (and \<open>0\<close> for \<open>n = 0\<close>); for a non-empty list
  this is \<open>n * \<lceil>log 2 n\<rceil>\<close>. When \<open>n = 2 ^ k\<close> the count is exactly \<open>n * k\<close>, that is
  \<open>n * log 2 n\<close>.
\<close>

theorem merge_sort_with_steps_ops_bound:
  "snd (fst (merge_sort_with_steps key S d depth)) \<le> int (length S * ceillog2 (length S)) \<and>
   (S \<noteq> [] \<longrightarrow>
      snd (fst (merge_sort_with_steps key S d depth)) \<le> int (length S) * \<lceil>log 2 (real (length S))\<rceil>) \<and>
   (length S = 2 ^ k \<longrightarrow>
      snd (fst (merge_sort_with_steps key S d depth)) = int (length S * k))"
proof (intro conjI impI)
  show le: "snd (fst (merge_sort_with_steps key S d depth)) \<le> int (length S * ceillog2 (length S))"
    by (rule merge_sort_with_steps_ops_le) (rule le_two_power_ceillog2)
  show "snd (fst (merge_sort_with_steps key S d depth)) \<le> int (length S) * \<lceil>log 2 (real (length S))\<rceil>"
    if "S \<noteq> []"
  proof -
    have "int (ceillog2 (length S)) = \<lceil>log 2 (real (length S))\<rceil>"
      using that by (intro ceillog2_eq_ceiling_log) simp
    then show ?thesis
      using le by (simp only: of_nat_mult)
  qed
  show "snd (fst (merge_sort_with_steps key S d depth)) = int (length S * k)"
    if "length S = 2 ^ k"
    using that by (rule merge_sort_with_steps_ops_pow2)
qed

text \<open>
  The list \<open>[3, 1, 4, 2]\<close> of length \<open>2 ^ 2\<close>: eight operations.
\<close>

theorem merge_sort_with_steps_ops_bound_witness:
  "[3, 1, 4, 2 :: int] \<noteq> [] \<and> length [3, 1, 4, 2 :: int] = 2 ^ 2 \<and>
   snd (fst (merge_sort_with_steps (\<lambda>x. x) [3, 1, 4, 2 :: int] False 0)) = 8 \<and>
   snd (fst (merge_sort_with_steps (\<lambda>x. x) [3, 1, 4, 2 :: int] False 0)) \<le>
     int (length [3, 1, 4, 2 :: int]) * \<lceil>log 2 (real (length [3, 1, 4, 2 :: int]))\<rceil>"
  using merge_sort_with_steps_ops_bound [of "\<lambda>x. x" "[3, 1, 4, 2 :: int]" False 0 2]
  by simp

text \<open>
  Claim C8 as stated gives \<open>n - 1\<close> operations for a length that is a power of two. The
  list \<open>[2, 1]\<close> has length \<open>2 ^ 1\<close>; its one merge is charged the combined length \<open>2\<close> of its
  two inputs, so the count returned is \<open>2\<close>, not \<open>1\<close>.
\<close>

theorem merge_sort_with_steps_ops_counterexample:
  "\<not> (\<forall>S :: int list. (\<exists>k. length S = 2 ^ k) \<longrightarrow>
        snd (fst (merge_sort_with_steps (\<lambda>x. x) S False 0)) = int (length S) - 1) \<and>
   length [2, 1 :: int] = 2 ^ 1 \<and>
   fst (merge_sort_with_steps (\<lambda>x. x) [2, 1 :: int] False 0) = ([1, 2], 2)"
proof -
  have e: "fst (merge_sort_with_steps (\<lambda>x. x) [2, 1 :: int] False 0) = ([1, 2], 2)"
    by code_simp
  have "\<not> (\<forall>S :: int list. (\<exists>k. length S = 2 ^ k) \<longrightarrow>
        snd (fst (merge_sort_with_steps (\<lambda>x. x) S False 0)) = int (length S) - 1)"
  proof
    assume a: "\<forall>S :: int list. (\<exists>k. length S = 2 ^ k) \<longrightarrow>
        snd (fst (merge_sort_with_steps (\<lambda>x. x) S False 0)) = int (length S) - 1"
    have "\<exists>k. length [2, 1 :: int] = 2 ^ k"
      by (rule exI [of _ 1]) simp
    with a have "snd (fst (merge_sort_with_steps (\<lambda>x. x) [2, 1 :: int] False 0)) =
                 int (length [2, 1 :: int]) - 1"
      by blast
    then show False by (simp add: e)
  qed
  then show ?thesis using e by simp
qed

section \<open>Termination\<close>

lemma merge_loop_total: "merge_loop_dom (key, reverse, left, right, st)"
proof -
  have "All (merge_loop_dom :: ('a \<Rightarrow> 'b) \<times> bool \<times> 'a list \<times> 'a list \<times> nat \<times> nat \<times> 'a list \<Rightarrow> bool)"
    by (rule "merge_loop.termination"
          [of "measure (\<lambda>(key, reverse, left, right, i, j, result).
                 (length left - i) + (length right - j))"]) auto
  then show ?thesis by (rule spec)
qed

lemma copy_rest_total: "copy_rest_dom (xs, st)"
proof -
  have "All (copy_rest_dom :: 'a list \<times> nat \<times> 'a list \<Rightarrow> bool)"
    by (rule "copy_rest.termination" [of "measure (\<lambda>(xs, i, result). length xs - i)"]) auto
  then show ?thesis by (rule spec)
qed

lemma merge_sort_total: "merge_sort_dom (key, arr, reverse)"
proof -
  have "All (merge_sort_dom :: ('a \<Rightarrow> 'b) \<times> 'a list \<times> bool \<Rightarrow> bool)"
    by (rule "merge_sort.termination" [of "measure (\<lambda>(key, arr, reverse). length arr)"]) auto
  then show ?thesis by (rule spec)
qed

lemma merge_sort_with_steps_total: "merge_sort_with_steps_dom (key, arr, reverse, depth)"
proof -
  have "All (merge_sort_with_steps_dom :: ('a \<Rightarrow> 'b) \<times> 'a list \<times> bool \<times> nat \<Rightarrow> bool)"
    by (rule "merge_sort_with_steps.termination"
          [of "measure (\<lambda>(key, arr, reverse, depth). length arr)"]) auto
  then show ?thesis by (rule spec)
qed

lemma outer_loop_total: "outer_loop_dom (key, reverse, n, i, sorted_arr)"
proof -
  have "All (outer_loop_dom :: ('a \<Rightarrow> 'b) \<times> bool \<times> nat \<times> nat \<times> 'a list \<Rightarrow> bool)"
    by (rule "outer_loop.termination" [of "measure (\<lambda>(key, reverse, n, i, sorted_arr). n - i)"]) auto
  then show ?thesis by (rule spec)
qed

lemma outer_loop_steps_total: "outer_loop_steps_dom (key, reverse, n, i, st)"
proof -
  have "All (outer_loop_steps_dom ::
          ('a \<Rightarrow> 'b) \<times> bool \<times> nat \<times> nat \<times> 'a list \<times> int \<times> 'a bubble_line list \<Rightarrow> bool)"
    by (rule "outer_loop_steps.termination" [of "measure (\<lambda>(key, reverse, n, i, st). n - i)"]) auto
  then show ?thesis by (rule spec)
qed

text \<open>
  Claim C9: for every list and either direction \<^verbatim>\<open>bubble_sort\<close>, \<^verbatim>\<open>bubble_sort_with_steps\<close>,
  \<^verbatim>\<open>merge_sort\<close> and \<^verbatim>\<open>merge_sort_with_steps\<close> terminate. Every loop and recursion of the
  four functions is started in the accessible part of its call relation (\<open>f_dom x\<close>: no
  infinite chain of iterations or recursive calls starts from \<open>x\<close>): the outer loops of
  the two bubble sorts from pass \<open>0\<close>, the two merge sorts, and the loops of \<^verbatim>\<open>merge\<close>; the
  inner \<^verbatim>\<open>for\<close> loops run over a finite range. For a list of length \<open>n \<ge> 2\<close> the split at
  \<open>n div 2\<close> gives two strictly shorter halves whose lengths sum to \<open>n\<close>, and these are
  the lists \<^verbatim>\<open>merge_sort\<close> recurs on.
\<close>

theorem sorts_terminate:
  "outer_loop_dom (key, d, length S, 0, S) \<and>
   outer_loop_steps_dom (key, d, length S, 0, (S, 0, [Initial S, Rule])) \<and>
   merge_sort_dom (key, S, d) \<and>
   merge_sort_with_steps_dom (key, S, d, depth) \<and>
   merge_loop_dom (key, d, left, right, (0, 0, [])) \<and>
   copy_rest_dom (left, (i, result)) \<and>
   (2 \<le> length S \<longrightarrow>
      length (take (length S div 2) S) < length S \<and>
      length (drop (length S div 2) S) < length S \<and>
      length (take (length S div 2) S) + length (drop (length S div 2) S) = length S \<and>
      merge_sort key S d =
        merge key (merge_sort key (take (length S div 2) S) d)
          (merge_sort key (drop (length S div 2) S) d) d)"
proof -
  have "merge_sort key S d =
        merge key (merge_sort key (take (length S div 2) S) d)
          (merge_sort key (drop (length S div 2) S) d) d" if "2 \<le> length S"
    using that merge_sort.simps [of key S d] by (simp add: Let_def)
  then show ?thesis
    using outer_loop_total [of key d "length S" 0 S]
      outer_loop_steps_total [of key d "length S" 0 "(S, 0, [Initial S, Rule])"]
      merge_sort_total [of key S d] merge_sort_with_steps_total [of key S d depth]
      merge_loop_total [of key d left right "(0, 0, [])"] copy_rest_total [of left "(i, result)"]
    by auto
qed

text \<open>
  The list \<open>[3, 1, 2]\<close>, split into \<open>[3]\<close> and \<open>[1, 2]\<close>.
\<close>

theorem sorts_terminate_witness:
  "2 \<le> length [3, 1, 2 :: int] \<and>
   length (take (length [3, 1, 2 :: int] div 2) [3, 1, 2 :: int]) < length [3, 1, 2 :: int] \<and>
   length (drop (length [3, 1, 2 :: int] div 2) [3, 1, 2 :: int]) < length [3, 1, 2 :: int] \<and>
   length (take (length [3, 1, 2 :: int] div 2) [3, 1, 2 :: int]) +
     length (drop (length [3, 1, 2 :: int] div 2) [3, 1, 2 :: int]) = length [3, 1, 2 :: int] \<and>
   merge_sort_dom (\<lambda>x. x, [3, 1, 2 :: int], False) \<and>
   merge_sort_with_steps_dom (\<lambda>x. x, [3, 1, 2 :: int], False, 0) \<and>
   outer_loop_dom (\<lambda>x. x, False, length [3, 1, 2 :: int], 0, [3, 1, 2 :: int]) \<and>
   outer_loop_steps_dom (\<lambda>x. x, False, length [3, 1, 2 :: int], 0,
     ([3, 1, 2 :: int], 0, [Initial [3, 1, 2], Rule]))"
  using sorts_terminate [of "\<lambda>x. x" False "[3, 1, 2 :: int]" 0 "[]" "[]" 0 "[]"]
  by simp

end
